theory Spec2Isabelle
  imports Main "HOL-Library.AList"
begin

section \<open>Library items\<close>

text \<open>
  \<^verbatim>\<open>LibraryItem\<close> is an abstract class with the fields \<^verbatim>\<open>id\<close> and \<^verbatim>\<open>title\<close>; its two
  concrete subclasses are \<^verbatim>\<open>Book\<close> (author, ISBN) and \<^verbatim>\<open>AudioBook\<close> (narrator, length
  in minutes). An item is a value of one of the two classes; the getters are the
  selectors. Identifiers and lengths are the integer-valued numbers of the data model, on
  which \<^verbatim>\<open>===\<close> is equality. A string of the program is the list of the bytes of its
  text (an ASCII character is one byte, itself; any other character is a sequence of
  bytes that are not ASCII), and \<^verbatim>\<open>===\<close> on strings is equality of the lists.
\<close>

datatype LibraryItem =
    Book (getId: int) (getTitle: string) (getAuthor: string) (getISBN: string)
  | AudioBook (getId: int) (getTitle: string) (getNarrator: string) (getLength: int)

text \<open>
  \<^verbatim>\<open>getItemType\<close> returns \<^verbatim>\<open>this.constructor.name\<close>: the constructor of an object is
  the class it was created with, and the name of a class is the identifier of its
  declaration.
\<close>

datatype constructor = Book_class | AudioBook_class

fun constructor_of :: "LibraryItem \<Rightarrow> constructor" where
  "constructor_of (Book i t a s) = Book_class"
| "constructor_of (AudioBook i t n l) = AudioBook_class"

fun name :: "constructor \<Rightarrow> string" where
  "name Book_class = ''Book''"
| "name AudioBook_class = ''AudioBook''"

definition getItemType :: "LibraryItem \<Rightarrow> string" where
  "getItemType this = name (constructor_of this)"

section \<open>Arrays\<close>

text \<open>
  The array methods the catalogue calls, each as the loop it runs: \<^verbatim>\<open>find\<close> and
  \<^verbatim>\<open>findIndex\<close> stop at the first element satisfying the predicate and give
  \<^verbatim>\<open>undefined\<close> (here \<open>None\<close>) and \<^verbatim>\<open>-1\<close> when there is none; \<^verbatim>\<open>filter\<close> pushes
  the satisfying elements onto a new array in index order; \<^verbatim>\<open>forEach\<close> calls its
  callback on each element in index order, here threading the state the callback
  updates.
\<close>

definition push :: "'a list \<Rightarrow> 'a \<Rightarrow> 'a list" where
  "push xs x = xs @ [x]"

fun Array_find :: "('a \<Rightarrow> bool) \<Rightarrow> 'a list \<Rightarrow> 'a option" where
  "Array_find P [] = None"
| "Array_find P (x # xs) = (if P x then Some x else Array_find P xs)"

fun findIndexFrom :: "nat \<Rightarrow> ('a \<Rightarrow> bool) \<Rightarrow> 'a list \<Rightarrow> int" where
  "findIndexFrom k P [] = - 1"
| "findIndexFrom k P (x # xs) = (if P x then int k else findIndexFrom (Suc k) P xs)"

definition findIndex :: "('a \<Rightarrow> bool) \<Rightarrow> 'a list \<Rightarrow> int" where
  "findIndex P xs = findIndexFrom 0 P xs"

fun filterInto :: "'a list \<Rightarrow> ('a \<Rightarrow> bool) \<Rightarrow> 'a list \<Rightarrow> 'a list" where
  "filterInto acc P [] = acc"
| "filterInto acc P (x # xs) = filterInto (if P x then push acc x else acc) P xs"

definition Array_filter :: "('a \<Rightarrow> bool) \<Rightarrow> 'a list \<Rightarrow> 'a list" where
  "Array_filter P xs = filterInto [] P xs"

fun forEach :: "('s \<Rightarrow> 'a \<Rightarrow> 's) \<Rightarrow> 'a list \<Rightarrow> 's \<Rightarrow> 's" where
  "forEach f [] s = s"
| "forEach f (x # xs) s = forEach f xs (f s x)"

text \<open>
  \<^verbatim>\<open>splice(start, deleteCount)\<close> removes \<^verbatim>\<open>deleteCount\<close> elements from \<^verbatim>\<open>start\<close> on
  and returns them; a negative start counts from the end, and both arguments are
  clamped to the array. The result is the pair of the removed elements and the array
  as it is afterwards.
\<close>

definition splice :: "'a list \<Rightarrow> int \<Rightarrow> int \<Rightarrow> 'a list \<times> 'a list" where
  "splice xs start deleteCount =
     (let len = int (length xs);
          s = (if start < 0 then max (len + start) 0 else min start len);
          d = min (max deleteCount 0) (len - s)
      in (take (nat d) (drop (nat s) xs), take (nat s) xs @ drop (nat (s + d)) xs))"

section \<open>The catalogue\<close>

text \<open>
  A catalogue object has one field, the array \<^verbatim>\<open>libraryItems\<close>. A method that changes
  the array returns the catalogue as it is afterwards; a method that writes to the
  console returns the lines it writes. Calling a method on \<^verbatim>\<open>undefined\<close> raises a
  \<^verbatim>\<open>TypeError\<close>.
\<close>

record LibraryCatalogue =
  libraryItems :: "LibraryItem list"

type_synonym console = "string list"

datatype error = TypeError

definition LibraryCatalogue_constructor :: LibraryCatalogue where
  "LibraryCatalogue_constructor = \<lparr>libraryItems = []\<rparr>"

definition quoted :: "string \<Rightarrow> string" where
  "quoted s = [CHR 0x22] @ s @ [CHR 0x22]"

definition addItem :: "LibraryCatalogue \<Rightarrow> LibraryItem \<Rightarrow> LibraryCatalogue \<times> console" where
  "addItem this item =
     (this\<lparr>libraryItems := push (libraryItems this) item\<rparr>,
      [getItemType item @ '' '' @ quoted (getTitle item) @ '' has been added to the catalogue.''])"

definition getItemCount :: "LibraryCatalogue \<Rightarrow> nat" where
  "getItemCount this = length (libraryItems this)"


text \<open>
  \<^verbatim>\<open>toLowerCase\<close> is a method of the language's strings: it maps a string to its
  lower-case form by the case tables of Unicode, which are no part of this program.
  \<^verbatim>\<open>findItemByTitle\<close> is therefore modelled for any such function, which it takes as
  its first argument and applies where the source calls the method.
\<close>

definition findItemByTitle ::
  "(string \<Rightarrow> string) \<Rightarrow> LibraryCatalogue \<Rightarrow> string \<Rightarrow> LibraryItem option" where
  "findItemByTitle toLowerCase this title =
     Array_find (\<lambda>item. toLowerCase (getTitle item) = toLowerCase title) (libraryItems this)"

definition findItemsByType :: "LibraryCatalogue \<Rightarrow> string \<Rightarrow> LibraryItem list" where
  "findItemsByType this itemType =
     Array_filter (\<lambda>item. getItemType item = itemType) (libraryItems this)"

text \<open>The spread \<^verbatim>\<open>[...xs]\<close> iterates over \<open>xs\<close> and collects the elements in a new array.\<close>

definition spread :: "'a list \<Rightarrow> 'a list" where
  "spread xs = forEach push xs []"

definition getAllItems :: "LibraryCatalogue \<Rightarrow> LibraryItem list" where
  "getAllItems this = spread (libraryItems this)"

text \<open>
  \<^verbatim>\<open>removeItem\<close> reads element 0 of the array \<^verbatim>\<open>splice\<close> returns and calls its getters
  for the console line; on an empty array that element is \<^verbatim>\<open>undefined\<close> and the call
  raises.
\<close>

definition removeItem ::
  "LibraryCatalogue \<Rightarrow> int \<Rightarrow> error + (bool \<times> LibraryCatalogue \<times> console)" where
  "removeItem this i =
     (let index = findIndex (\<lambda>item. getId item = i) (libraryItems this) in
      if index > - 1 then
        (case splice (libraryItems this) index 1 of
           (removed, remaining) \<Rightarrow>
             (case removed of
                [] \<Rightarrow> Inl TypeError
              | removedItem # _ \<Rightarrow>
                  Inr (True, this\<lparr>libraryItems := remaining\<rparr>,
                       [getItemType removedItem @ '' '' @ quoted (getTitle removedItem)
                          @ '' has been removed from the catalogue.''])))
      else Inr (False, this, []))"

text \<open>
  The statistics object: \<^verbatim>\<open>total\<close> and the object \<^verbatim>\<open>byType\<close>, whose properties are
  kept in the order they were created, as an association list. \<^verbatim>\<open>byType[type] || 0\<close>
  is 0 when the property is missing or 0. (The keys are class names; none of them is
  a property that an empty object inherits.)
\<close>

record statistics =
  total :: nat
  byType :: "(string \<times> nat) list"

definition or_zero :: "nat option \<Rightarrow> nat" where
  "or_zero v = (case v of None \<Rightarrow> 0 | Some n \<Rightarrow> if n = 0 then 0 else n)"

definition count_item :: "statistics \<Rightarrow> LibraryItem \<Rightarrow> statistics" where
  "count_item stats item =
     (let type = getItemType item in
      stats\<lparr>byType := AList.update type (or_zero (map_of (byType stats) type) + 1) (byType stats)\<rparr>)"

definition getStatistics :: "LibraryCatalogue \<Rightarrow> statistics" where
  "getStatistics this =
     (let stats = \<lparr>total = length (libraryItems this), byType = []\<rparr>
      in forEach count_item (libraryItems this) stats)"

text \<open>
  The deprecated methods call their replacements. \<^verbatim>\<open>addBook\<close> is declared for a
  \<^verbatim>\<open>Book\<close>, which is an item, and passes it on as it is.
\<close>

definition addBook :: "LibraryCatalogue \<Rightarrow> LibraryItem \<Rightarrow> LibraryCatalogue \<times> console" where
  "addBook this book = addItem this book"

definition getBookCount :: "LibraryCatalogue \<Rightarrow> nat" where
  "getBookCount this = getItemCount this"

definition findBookByTitle ::
  "(string \<Rightarrow> string) \<Rightarrow> LibraryCatalogue \<Rightarrow> string \<Rightarrow> LibraryItem option" where
  "findBookByTitle toLowerCase this title = findItemByTitle toLowerCase this title"

definition getAllBooks :: "LibraryCatalogue \<Rightarrow> LibraryItem list" where
  "getAllBooks this = getAllItems this"

section \<open>Case-insensitive equality\<close>









section \<open>Sequences of calls on one catalogue\<close>

text \<open>
  A caller adds and removes items in any order. \<open>perform\<close> runs the calls one after
  the other and counts the calls of \<^verbatim>\<open>addItem\<close> and the calls of \<^verbatim>\<open>removeItem\<close> that
  returned true; an exception ends the run.
\<close>

datatype operation = Add LibraryItem | Remove int

fun is_Add :: "operation \<Rightarrow> bool" where
  "is_Add (Add item) = True"
| "is_Add (Remove i) = False"

fun perform ::
  "operation list \<Rightarrow> LibraryCatalogue \<times> nat \<times> nat \<Rightarrow> error + (LibraryCatalogue \<times> nat \<times> nat)" where
  "perform [] s = Inr s"
| "perform (Add item # ops) (c, added, removed) =
     perform ops (fst (addItem c item), Suc added, removed)"
| "perform (Remove i # ops) (c, added, removed) =
     (case removeItem c i of
        Inl e \<Rightarrow> Inl e
      | Inr (ok, c', out) \<Rightarrow> perform ops (c', added, if ok then Suc removed else removed))"

section \<open>Objects and references\<close>

text \<open>
  Objects live in a store and are known by their references. A process has the static
  field \<^verbatim>\<open>LibraryCatalogue.instance\<close> (\<open>None\<close> while it is \<^verbatim>\<open>undefined\<close>), the
  catalogue objects (each holds, in its field \<^verbatim>\<open>libraryItems\<close>, the reference of an
  array), the arrays, the next unused reference, and the console. Items are values:
  no method of the catalogue changes an item.
\<close>

type_synonym ref = nat

record process =
  static_instance :: "ref option"
  objects :: "ref \<rightharpoonup> ref"
  arrays :: "ref \<rightharpoonup> LibraryItem list"
  fresh :: ref
  stdout :: console

definition process_start :: process where
  "process_start =
     \<lparr>static_instance = None, objects = Map.empty, arrays = Map.empty, fresh = 0, stdout = []\<rparr>"

definition new_array :: "process \<Rightarrow> LibraryItem list \<Rightarrow> ref \<times> process" where
  "new_array p xs = (fresh p, p\<lparr>arrays := (arrays p)(fresh p \<mapsto> xs), fresh := Suc (fresh p)\<rparr>)"

text \<open>The constructor is private: \<^verbatim>\<open>getInstance\<close> is the only place that calls it.\<close>

definition new_LibraryCatalogue :: "process \<Rightarrow> ref \<times> process" where
  "new_LibraryCatalogue p =
     (case new_array p (libraryItems LibraryCatalogue_constructor) of
        (a, p1) \<Rightarrow> (fresh p1, p1\<lparr>objects := (objects p1)(fresh p1 \<mapsto> a), fresh := Suc (fresh p1)\<rparr>))"

definition getInstance :: "process \<Rightarrow> ref option \<times> process" where
  "getInstance p =
     (let p1 = (if static_instance p = None
                then (case new_LibraryCatalogue p of (r, p') \<Rightarrow> p'\<lparr>static_instance := Some r\<rparr>)
                else p)
      in (static_instance p1, p1))"

text \<open>
  A method called through a reference runs on the state of the object the reference
  names and writes the array back in place. A call through \<^verbatim>\<open>undefined\<close>, or through a
  reference that names no object, raises.
\<close>

definition state_of :: "process \<Rightarrow> ref option \<Rightarrow> error + LibraryCatalogue" where
  "state_of p v =
     (case v of
        None \<Rightarrow> Inl TypeError
      | Some r \<Rightarrow>
          (case objects p r of
             None \<Rightarrow> Inl TypeError
           | Some a \<Rightarrow>
               (case arrays p a of
                  None \<Rightarrow> Inl TypeError
                | Some xs \<Rightarrow> Inr \<lparr>libraryItems = xs\<rparr>)))"

definition mutate :: "process \<Rightarrow> ref \<Rightarrow> LibraryItem list \<Rightarrow> process" where
  "mutate p a xs = p\<lparr>arrays := (arrays p)(a \<mapsto> xs)\<rparr>"

definition write_back :: "process \<Rightarrow> ref option \<Rightarrow> LibraryCatalogue \<Rightarrow> process" where
  "write_back p v this =
     (case v of
        None \<Rightarrow> p
      | Some r \<Rightarrow> (case objects p r of None \<Rightarrow> p | Some a \<Rightarrow> mutate p a (libraryItems this)))"

definition console_log :: "process \<Rightarrow> console \<Rightarrow> process" where
  "console_log p lines = p\<lparr>stdout := stdout p @ lines\<rparr>"

definition invoke_addItem :: "process \<Rightarrow> ref option \<Rightarrow> LibraryItem \<Rightarrow> error + process" where
  "invoke_addItem p v item =
     (case state_of p v of
        Inl e \<Rightarrow> Inl e
      | Inr this \<Rightarrow> (case addItem this item of (this', lines) \<Rightarrow> Inr (console_log (write_back p v this') lines)))"

definition invoke_removeItem :: "process \<Rightarrow> ref option \<Rightarrow> int \<Rightarrow> error + (bool \<times> process)" where
  "invoke_removeItem p v i =
     (case state_of p v of
        Inl e \<Rightarrow> Inl e
      | Inr this \<Rightarrow>
          (case removeItem this i of
             Inl e \<Rightarrow> Inl e
           | Inr (ok, this', lines) \<Rightarrow> Inr (ok, console_log (write_back p v this') lines)))"

definition invoke_getItemCount :: "process \<Rightarrow> ref option \<Rightarrow> error + nat" where
  "invoke_getItemCount p v =
     (case state_of p v of Inl e \<Rightarrow> Inl e | Inr this \<Rightarrow> Inr (getItemCount this))"

definition invoke_getAllItems :: "process \<Rightarrow> ref option \<Rightarrow> error + (ref \<times> process)" where
  "invoke_getAllItems p v =
     (case state_of p v of Inl e \<Rightarrow> Inl e | Inr this \<Rightarrow> Inr (new_array p (getAllItems this)))"

text \<open>
  A caller holds the references it was given: the results of its calls of
  \<^verbatim>\<open>getInstance\<close> and the arrays \<^verbatim>\<open>getAllItems\<close> returned to it, each in the order of
  the calls. It calls methods through a reference it holds, named by its position, and
  it can mutate an array it holds in any way (\<open>Mutate\<close> gives what the array holds
  afterwards). A call that names a reference the caller does not hold is no call.
\<close>

record caller =
  proc :: process
  catalogues :: "ref option list"
  sequences :: "ref list"

definition caller_start :: caller where
  "caller_start = \<lparr>proc = process_start, catalogues = [], sequences = []\<rparr>"

datatype call =
    GetInstance
  | AddItem nat LibraryItem
  | RemoveItem nat int
  | GetAllItems nat
  | Mutate nat "LibraryItem list"

fun step :: "caller \<Rightarrow> call \<Rightarrow> error + caller" where
  "step s GetInstance =
     (case getInstance (proc s) of
        (v, p) \<Rightarrow> Inr (s\<lparr>proc := p, catalogues := catalogues s @ [v]\<rparr>))"
| "step s (AddItem k item) =
     (if k < length (catalogues s)
      then (case invoke_addItem (proc s) (catalogues s ! k) item of
              Inl e \<Rightarrow> Inl e
            | Inr p \<Rightarrow> Inr (s\<lparr>proc := p\<rparr>))
      else Inr s)"
| "step s (RemoveItem k i) =
     (if k < length (catalogues s)
      then (case invoke_removeItem (proc s) (catalogues s ! k) i of
              Inl e \<Rightarrow> Inl e
            | Inr (ok, p) \<Rightarrow> Inr (s\<lparr>proc := p\<rparr>))
      else Inr s)"
| "step s (GetAllItems k) =
     (if k < length (catalogues s)
      then (case invoke_getAllItems (proc s) (catalogues s ! k) of
              Inl e \<Rightarrow> Inl e
            | Inr (a, p) \<Rightarrow> Inr (s\<lparr>proc := p, sequences := sequences s @ [a]\<rparr>))
      else Inr s)"
| "step s (Mutate j xs) =
     (if j < length (sequences s)
      then Inr (s\<lparr>proc := mutate (proc s) (sequences s ! j) xs\<rparr>)
      else Inr s)"

fun run :: "call list \<Rightarrow> caller \<Rightarrow> error + caller" where
  "run [] s = Inr s"
| "run (c # cs) s = (case step s c of Inl e \<Rightarrow> Inl e | Inr s' \<Rightarrow> run cs s')"

text \<open>
  What holds of a caller and its process at every moment: every catalogue object is the
  one the static field names, its array exists, every reference in use is below the
  next unused one, every catalogue reference the caller holds is the static field's
  value, and no array the caller holds is the array of a catalogue.
\<close>

definition consistent :: "caller \<Rightarrow> bool" where
  "consistent s \<longleftrightarrow>
     (\<forall>r a. objects (proc s) r = Some a \<longrightarrow>
        static_instance (proc s) = Some r \<and> a \<in> dom (arrays (proc s)))
     \<and> (\<forall>r. static_instance (proc s) = Some r \<longrightarrow> r \<in> dom (objects (proc s)))
     \<and> (\<forall>a \<in> dom (arrays (proc s)). a < fresh (proc s))
     \<and> (\<forall>v \<in> set (catalogues s). v \<noteq> None \<and> v = static_instance (proc s))
     \<and> (\<forall>a \<in> set (sequences s). a \<in> dom (arrays (proc s)) \<and> a \<notin> ran (objects (proc s)))"

section \<open>A small library\<close>

text \<open>
  Two books and an audio book, a catalogue holding the three in this order, and a caller
  that asks for the catalogue twice, adds items through both references, takes a copy of
  the sequence and empties the copy.
\<close>

definition gatsby :: LibraryItem where
  "gatsby = Book 1 ''The Great Gatsby'' ''F. Scott Fitzgerald'' ''978-0-7432-7356-5''"

definition nineteen_eighty_four :: LibraryItem where
  "nineteen_eighty_four = Book 2 ''1984'' ''George Orwell'' ''978-0-452-28423-4''"

definition dune :: LibraryItem where
  "dune = AudioBook 3 ''Dune'' ''Simon Vance'' 1260"

definition scenario :: LibraryCatalogue where
  "scenario = \<lparr>libraryItems = [gatsby, nineteen_eighty_four, dune]\<rparr>"

definition session :: "call list" where
  "session = [GetInstance, AddItem 0 gatsby, GetInstance, GetAllItems 1, AddItem 1 dune, Mutate 0 []]"

section \<open>The array methods\<close>

lemma findIndexFrom_absent:
  "\<forall>x \<in> set xs. \<not> P x \<Longrightarrow> findIndexFrom k P xs = - 1"
  by (induction xs arbitrary: k) auto

lemma findIndexFrom_first:
  "\<exists>x \<in> set xs. P x \<Longrightarrow>
   \<exists>j. j < length xs \<and> P (xs ! j) \<and> (\<forall>m < j. \<not> P (xs ! m)) \<and> findIndexFrom k P xs = int (k + j)"
proof (induction xs arbitrary: k)
  case Nil
  then show ?case by simp
next
  case (Cons x xs)
  show ?case
  proof (cases "P x")
    case True
    then have "0 < length (x # xs) \<and> P ((x # xs) ! 0) \<and> (\<forall>m < 0. \<not> P ((x # xs) ! m))
               \<and> findIndexFrom k P (x # xs) = int (k + 0)"
      by simp
    then show ?thesis by blast
  next
    case False
    with Cons.prems have "\<exists>y \<in> set xs. P y" by auto
    from Cons.IH [OF this, of "Suc k"] obtain j where
      j: "j < length xs" "P (xs ! j)" "\<forall>m < j. \<not> P (xs ! m)"
         "findIndexFrom (Suc k) P xs = int (Suc k + j)"
      by blast
    have "\<forall>m < Suc j. \<not> P ((x # xs) ! m)"
      using False j(3) by (auto simp: less_Suc_eq_0_disj)
    with j False have "Suc j < length (x # xs) \<and> P ((x # xs) ! Suc j)
        \<and> (\<forall>m < Suc j. \<not> P ((x # xs) ! m))
        \<and> findIndexFrom k P (x # xs) = int (k + Suc j)"
      by simp
    then show ?thesis by blast
  qed
qed

lemma splice_one:
  "k < length xs \<Longrightarrow> splice xs (int k) 1 = ([xs ! k], take k xs @ drop (Suc k) xs)"
  by (simp add: splice_def Let_def min_def max_def take_Suc_conv_app_nth hd_drop_conv_nth
        Cons_nth_drop_Suc[symmetric] nat_add_distrib)

lemma filterInto_filter: "filterInto acc P xs = acc @ filter P xs"
  by (induction xs arbitrary: acc) (simp_all add: push_def)

lemma Array_filter_filter: "Array_filter P xs = filter P xs"
  by (simp add: Array_filter_def filterInto_filter)

lemma forEach_push: "forEach push xs acc = acc @ xs"
  by (induction xs arbitrary: acc) (simp_all add: push_def)

lemma spread_copy: "spread xs = xs"
  by (simp add: spread_def forEach_push)



section \<open>Item types\<close>

text \<open>
  C9: the type of an item is a fixed string naming its class: every \<^verbatim>\<open>Book\<close> has the
  type "Book" and every \<^verbatim>\<open>AudioBook\<close> the type "AudioBook", whatever its fields hold,
  and the two differ.
\<close>

theorem getItemType_names_variant:
  "getItemType (Book i t a s) = ''Book''
   \<and> getItemType (AudioBook j u n l) = ''AudioBook''
   \<and> getItemType (Book i t a s) \<noteq> getItemType (AudioBook j u n l)"
  by (simp add: getItemType_def)

section \<open>Adding items\<close>

text \<open>
  C4: \<^verbatim>\<open>addItem\<close> puts the item at the end of the sequence, whatever the sequence and
  the item are (so also when the id or the title of the item occurs already): the
  count grows by exactly one and the items that were there keep their positions.
\<close>

theorem addItem_appends:
  "libraryItems (fst (addItem c item)) = libraryItems c @ [item]
   \<and> getItemCount (fst (addItem c item)) = getItemCount c + 1
   \<and> take (getItemCount c) (libraryItems (fst (addItem c item))) = libraryItems c
   \<and> libraryItems (fst (addItem c item)) ! getItemCount c = item"
  by (simp add: addItem_def push_def getItemCount_def)

section \<open>Removing items\<close>

lemma removeItem_absent:
  "i \<notin> getId ` set (libraryItems c) \<Longrightarrow> removeItem c i = Inr (False, c, [])"
proof -
  assume "i \<notin> getId ` set (libraryItems c)"
  then have "\<forall>x \<in> set (libraryItems c). \<not> getId x = i" by auto
  from findIndexFrom_absent [OF this] show ?thesis
    by (simp add: removeItem_def findIndex_def)
qed

lemma removeItem_present:
  assumes "i \<in> getId ` set (libraryItems c)"
  shows "\<exists>k. k < length (libraryItems c) \<and> getId (libraryItems c ! k) = i
           \<and> (\<forall>j < k. getId (libraryItems c ! j) \<noteq> i)
           \<and> removeItem c i =
               Inr (True, c\<lparr>libraryItems := take k (libraryItems c) @ drop (Suc k) (libraryItems c)\<rparr>,
                    [getItemType (libraryItems c ! k) @ '' '' @ quoted (getTitle (libraryItems c ! k))
                       @ '' has been removed from the catalogue.''])"
proof -
  from assms have "\<exists>x \<in> set (libraryItems c). getId x = i" by auto
  from findIndexFrom_first [OF this, of 0] obtain k where
    k: "k < length (libraryItems c)" "getId (libraryItems c ! k) = i"
       "\<forall>m < k. \<not> getId (libraryItems c ! m) = i"
       "findIndexFrom 0 (\<lambda>item. getId item = i) (libraryItems c) = int (0 + k)"
    by blast
  have "removeItem c i =
      Inr (True, c\<lparr>libraryItems := take k (libraryItems c) @ drop (Suc k) (libraryItems c)\<rparr>,
           [getItemType (libraryItems c ! k) @ '' '' @ quoted (getTitle (libraryItems c ! k))
              @ '' has been removed from the catalogue.''])"
    using k(1,4) by (simp add: removeItem_def findIndex_def splice_one)
  with k show ?thesis by blast
qed


lemma removeItem_returns:
  "\<exists>ok c' out. removeItem c i = Inr (ok, c', out)
      \<and> getItemCount c' + (if ok then 1 else 0) = getItemCount c"
proof (cases "i \<in> getId ` set (libraryItems c)")
  case True
  from removeItem_present [OF this] obtain k where
    "k < length (libraryItems c)"
    "removeItem c i =
       Inr (True, c\<lparr>libraryItems := take k (libraryItems c) @ drop (Suc k) (libraryItems c)\<rparr>,
            [getItemType (libraryItems c ! k) @ '' '' @ quoted (getTitle (libraryItems c ! k))
               @ '' has been removed from the catalogue.''])"
    by blast
  then have "removeItem c i = Inr (True, c\<lparr>libraryItems := take k (libraryItems c) @ drop (Suc k) (libraryItems c)\<rparr>,
            [getItemType (libraryItems c ! k) @ '' '' @ quoted (getTitle (libraryItems c ! k))
               @ '' has been removed from the catalogue.''])
     \<and> getItemCount (c\<lparr>libraryItems := take k (libraryItems c) @ drop (Suc k) (libraryItems c)\<rparr>)
          + (if True then 1 else 0) = getItemCount c"
    by (simp add: getItemCount_def)
  then show ?thesis by blast
next
  case False
  from removeItem_absent [OF this]
  have "removeItem c i = Inr (False, c, []) \<and> getItemCount c + (if False then 1 else 0) = getItemCount c"
    by simp
  then show ?thesis by blast
qed


text \<open>
  C1: \<^verbatim>\<open>removeItem\<close> looks for the first item with the given id. When no item has the
  id, it returns false, leaves the catalogue as it is and writes nothing. When some item
  has it, it returns true and the sequence afterwards is the old one without the entry
  at the first position \<open>k\<close> that holds the id: one item fewer, the others in their
  order. In both cases it returns; it never raises.
\<close>

theorem removeItem_first_match:
  "(i \<notin> getId ` set (libraryItems c) \<longrightarrow> removeItem c i = Inr (False, c, []))
   \<and> (i \<in> getId ` set (libraryItems c) \<longrightarrow>
        (\<exists>k c' out. removeItem c i = Inr (True, c', out)
           \<and> k < getItemCount c
           \<and> getId (libraryItems c ! k) = i
           \<and> (\<forall>j < k. getId (libraryItems c ! j) \<noteq> i)
           \<and> libraryItems c' = take k (libraryItems c) @ drop (Suc k) (libraryItems c)
           \<and> getItemCount c' + 1 = getItemCount c))"
proof (intro conjI impI)
  assume "i \<notin> getId ` set (libraryItems c)"
  then show "removeItem c i = Inr (False, c, [])" by (rule removeItem_absent)
next
  assume "i \<in> getId ` set (libraryItems c)"
  from removeItem_present [OF this] obtain k where
    k: "k < length (libraryItems c)" "getId (libraryItems c ! k) = i"
       "\<forall>j < k. getId (libraryItems c ! j) \<noteq> i"
       "removeItem c i =
          Inr (True, c\<lparr>libraryItems := take k (libraryItems c) @ drop (Suc k) (libraryItems c)\<rparr>,
               [getItemType (libraryItems c ! k) @ '' '' @ quoted (getTitle (libraryItems c ! k))
                  @ '' has been removed from the catalogue.''])"
    by blast
  define c' where "c' = c\<lparr>libraryItems := take k (libraryItems c) @ drop (Suc k) (libraryItems c)\<rparr>"
  have "libraryItems c' = take k (libraryItems c) @ drop (Suc k) (libraryItems c)"
    by (simp add: c'_def)
  moreover have "getItemCount c' + 1 = getItemCount c"
    using k(1) by (simp add: c'_def getItemCount_def)
  moreover have "k < getItemCount c" using k(1) by (simp add: getItemCount_def)
  ultimately show "\<exists>k c' out. removeItem c i = Inr (True, c', out)
           \<and> k < getItemCount c
           \<and> getId (libraryItems c ! k) = i
           \<and> (\<forall>j < k. getId (libraryItems c ! j) \<noteq> i)
           \<and> libraryItems c' = take k (libraryItems c) @ drop (Suc k) (libraryItems c)
           \<and> getItemCount c' + 1 = getItemCount c"
    using k(2,3,4) unfolding c'_def by blast
qed

theorem removeItem_first_match_witness:
  "2 \<in> getId ` set (libraryItems scenario)
   \<and> removeItem scenario 2
        = Inr (True, \<lparr>libraryItems = [gatsby, dune]\<rparr>, [''Book '' @ quoted ''1984'' @ '' has been removed from the catalogue.''])
   \<and> 7 \<notin> getId ` set (libraryItems scenario)
   \<and> removeItem scenario 7 = Inr (False, scenario, [])"
  using removeItem_first_match [of 2 scenario] removeItem_first_match [of 7 scenario]
  by (simp add: scenario_def gatsby_def nineteen_eighty_four_def dune_def removeItem_def
        findIndex_def splice_def getItemType_def quoted_def)

lemma perform_tally:
  "\<exists>c' added' removed'. perform ops (c, added, removed) = Inr (c', added', removed')
     \<and> added' = added + length (filter is_Add ops)
     \<and> getItemCount c' + removed' + added = getItemCount c + removed + added'"
proof (induction ops arbitrary: c added removed)
  case Nil
  then show ?case by simp
next
  case (Cons op ops)
  show ?case
  proof (cases op)
    case (Add item)
    from Cons.IH [of "fst (addItem c item)" "Suc added" removed] Add show ?thesis
      by (auto simp: addItem_def push_def getItemCount_def)
  next
    case (Remove i)
    from removeItem_returns [of c i] obtain ok c1 out where
      r: "removeItem c i = Inr (ok, c1, out)"
         "getItemCount c1 + (if ok then 1 else 0) = getItemCount c"
      by blast
    from Cons.IH [of c1 added "if ok then Suc removed else removed"] r Remove show ?thesis
      by (auto split: if_splits)
  qed
qed

text \<open>
  C5: starting from the empty catalogue, any sequence of \<^verbatim>\<open>addItem\<close> and \<^verbatim>\<open>removeItem\<close>
  calls runs to its end, and then the item count is the number of \<^verbatim>\<open>addItem\<close> calls
  minus the number of \<^verbatim>\<open>removeItem\<close> calls that returned true.
\<close>

theorem getItemCount_adds_minus_removes:
  "\<exists>c added removed.
      perform ops (LibraryCatalogue_constructor, 0, 0) = Inr (c, added, removed)
      \<and> added = length (filter is_Add ops)
      \<and> removed \<le> added
      \<and> int (getItemCount c) = int added - int removed"
proof -
  from perform_tally [of ops LibraryCatalogue_constructor 0 0] obtain c added removed where
    p: "perform ops (LibraryCatalogue_constructor, 0, 0) = Inr (c, added, removed)"
       "added = 0 + length (filter is_Add ops)"
       "getItemCount c + removed + 0 = getItemCount LibraryCatalogue_constructor + 0 + added"
    by blast
  from p(3) have "getItemCount c + removed = added"
    by (simp add: getItemCount_def LibraryCatalogue_constructor_def)
  then have "removed \<le> added" "int (getItemCount c) = int added - int removed"
    by simp_all
  with p(1,2) show ?thesis by simp
qed

section \<open>Statistics\<close>

lemma or_zero_simp: "or_zero v = (case v of None \<Rightarrow> 0 | Some n \<Rightarrow> n)"
  by (simp add: or_zero_def split: option.splits)

lemma sum_update_incr:
  "sum_list (map snd (AList.update k (Suc (or_zero (map_of al k))) al)) = Suc (sum_list (map snd al))"
  by (induction al) (auto simp: or_zero_simp)

lemma update_values: "snd ` set (AList.update k v al) \<subseteq> insert v (snd ` set al)"
  by (induction al) auto

lemma forEach_count_item_total:
  "total (forEach count_item xs stats) = total stats"
  by (induction xs arbitrary: stats) (simp_all add: count_item_def Let_def)

lemma forEach_count_item_sum:
  "sum_list (map snd (byType (forEach count_item xs stats)))
     = sum_list (map snd (byType stats)) + length xs"
  by (induction xs arbitrary: stats) (simp_all add: count_item_def Let_def sum_update_incr)

lemma forEach_count_item_distinct:
  "distinct (map fst (byType stats)) \<Longrightarrow>
   distinct (map fst (byType (forEach count_item xs stats)))"
  by (induction xs arbitrary: stats) (simp_all add: count_item_def Let_def distinct_update)

lemma forEach_count_item_lookup:
  "or_zero (map_of (byType (forEach count_item xs stats)) t)
     = or_zero (map_of (byType stats) t) + length (filter (\<lambda>item. getItemType item = t) xs)"
  by (induction xs arbitrary: stats) (simp_all add: count_item_def Let_def update_conv' or_zero_simp)

lemma forEach_count_item_dom:
  "fst ` set (byType (forEach count_item xs stats))
     = fst ` set (byType stats) \<union> getItemType ` set xs"
  by (induction xs arbitrary: stats) (auto simp add: count_item_def Let_def dom_update)

lemma forEach_count_item_positive:
  "0 \<notin> snd ` set (byType stats) \<Longrightarrow> 0 \<notin> snd ` set (byType (forEach count_item xs stats))"
proof (induction xs arbitrary: stats)
  case Nil
  then show ?case by simp
next
  case (Cons x xs)
  have "0 \<notin> snd ` set (byType (count_item stats x))"
    using Cons.prems
    using update_values [of "getItemType x" _ "byType stats"]
    by (auto simp: count_item_def Let_def)
  from Cons.IH [OF this] show ?case by simp
qed

text \<open>
  C2: for every catalogue, \<^verbatim>\<open>total\<close> is the item count; \<^verbatim>\<open>byType\<close> gives each type
  that some item of the catalogue has the number of items of that type, and has no entry
  for any other string; it has each key once and no entry with count 0; and its counts
  add up to \<^verbatim>\<open>total\<close>. This holds of every catalogue, so of the one any sequence of
  additions and removals leaves.
\<close>

theorem getStatistics_counts:
  "total (getStatistics c) = getItemCount c
   \<and> (\<forall>t. map_of (byType (getStatistics c)) t
          = (if t \<in> getItemType ` set (libraryItems c)
             then Some (length (filter (\<lambda>item. getItemType item = t) (libraryItems c)))
             else None))
   \<and> distinct (map fst (byType (getStatistics c)))
   \<and> 0 \<notin> snd ` set (byType (getStatistics c))
   \<and> sum_list (map snd (byType (getStatistics c))) = total (getStatistics c)"
proof -
  define start where "start = \<lparr>total = length (libraryItems c), byType = []\<rparr>"
  have g: "getStatistics c = forEach count_item (libraryItems c) start"
    by (simp add: getStatistics_def start_def)
  have tot: "total (getStatistics c) = getItemCount c"
    by (simp add: g forEach_count_item_total getItemCount_def start_def)
  have keys: "fst ` set (byType (getStatistics c)) = getItemType ` set (libraryItems c)"
    by (simp add: g forEach_count_item_dom start_def)
  have cnt: "or_zero (map_of (byType (getStatistics c)) t)
               = length (filter (\<lambda>item. getItemType item = t) (libraryItems c))" for t
    using forEach_count_item_lookup [of "libraryItems c" start t]
    by (simp add: g start_def or_zero_def)
  have look: "map_of (byType (getStatistics c)) t
          = (if t \<in> getItemType ` set (libraryItems c)
             then Some (length (filter (\<lambda>item. getItemType item = t) (libraryItems c)))
             else None)" for t
  proof (cases "t \<in> getItemType ` set (libraryItems c)")
    case True
    with keys have "t \<in> fst ` set (byType (getStatistics c))" by simp
    then obtain n where n: "map_of (byType (getStatistics c)) t = Some n"
      by (metis map_of_eq_None_iff not_Some_eq)
    with cnt [of t] have "n = length (filter (\<lambda>item. getItemType item = t) (libraryItems c))"
      by (simp add: or_zero_simp)
    with n True show ?thesis by simp
  next
    case False
    with keys have "t \<notin> fst ` set (byType (getStatistics c))" by simp
    then have "map_of (byType (getStatistics c)) t = None"
      by (simp add: map_of_eq_None_iff)
    with False show ?thesis by simp
  qed
  have dist: "distinct (map fst (byType (getStatistics c)))"
    unfolding g by (rule forEach_count_item_distinct) (simp add: start_def)
  have pos: "0 \<notin> snd ` set (byType (getStatistics c))"
    unfolding g by (rule forEach_count_item_positive) (simp add: start_def)
  have sum: "sum_list (map snd (byType (getStatistics c))) = total (getStatistics c)"
    by (simp add: g forEach_count_item_sum forEach_count_item_total start_def)
  from tot look dist pos sum show ?thesis by blast
qed

theorem getStatistics_counts_witness:
  "getStatistics scenario = \<lparr>total = 3, byType = [(''Book'', 2), (''AudioBook'', 1)]\<rparr>
   \<and> ''Book'' \<in> getItemType ` set (libraryItems scenario)
   \<and> map_of (byType (getStatistics scenario)) ''Book'' = Some 2
   \<and> ''Magazine'' \<notin> getItemType ` set (libraryItems scenario)
   \<and> map_of (byType (getStatistics scenario)) ''Magazine'' = None"
  using getStatistics_counts [of scenario]
  by (simp add: scenario_def gatsby_def nineteen_eighty_four_def dune_def getStatistics_def
        count_item_def or_zero_def getItemType_def)

section \<open>Finding items by title\<close>













section \<open>Finding items by type\<close>

text \<open>
  C6: \<^verbatim>\<open>findItemsByType\<close> returns the items of the catalogue whose type is the given
  string, character for character, in the order of the catalogue; when no item has the
  type the result is the empty sequence.
\<close>

theorem findItemsByType_exact:
  "findItemsByType c t = filter (\<lambda>item. getItemType item = t) (libraryItems c)
   \<and> set (findItemsByType c t) = {item \<in> set (libraryItems c). getItemType item = t}
   \<and> (t \<notin> getItemType ` set (libraryItems c) \<longrightarrow> findItemsByType c t = [])"
proof -
  have f: "findItemsByType c t = filter (\<lambda>item. getItemType item = t) (libraryItems c)"
    by (simp add: findItemsByType_def Array_filter_filter)
  have "t \<notin> getItemType ` set (libraryItems c) \<longrightarrow> findItemsByType c t = []"
    unfolding f by (auto simp: filter_empty_conv)
  with f show ?thesis by simp
qed

theorem findItemsByType_exact_witness:
  "findItemsByType scenario ''Book'' = [gatsby, nineteen_eighty_four]
   \<and> ''book'' \<notin> getItemType ` set (libraryItems scenario)
   \<and> findItemsByType scenario ''book'' = []"
proof -
  have types: "getItemType gatsby = ''Book''" "getItemType nineteen_eighty_four = ''Book''"
    "getItemType dune = ''AudioBook''"
    by (simp_all add: gatsby_def nineteen_eighty_four_def dune_def getItemType_def)
  have items: "libraryItems scenario = [gatsby, nineteen_eighty_four, dune]"
    by (simp add: scenario_def)
  have h: "''book'' \<notin> getItemType ` set (libraryItems scenario)"
    by (simp add: items types)
  with findItemsByType_exact [of scenario "''book''"]
  have "findItemsByType scenario ''book'' = []" by blast
  moreover from findItemsByType_exact [of scenario "''Book''"]
  have "findItemsByType scenario ''Book'' = [gatsby, nineteen_eighty_four]"
    by (simp add: items types)
  ultimately show ?thesis using h by simp
qed

section \<open>The deprecated methods\<close>

text \<open>
  C10: each deprecated method gives what its replacement gives: \<^verbatim>\<open>addBook\<close> the
  catalogue and the console line of \<^verbatim>\<open>addItem\<close>, \<^verbatim>\<open>getBookCount\<close> the result of
  \<^verbatim>\<open>getItemCount\<close>, \<^verbatim>\<open>findBookByTitle\<close> that of \<^verbatim>\<open>findItemByTitle\<close>, and
  \<^verbatim>\<open>getAllBooks\<close> that of \<^verbatim>\<open>getAllItems\<close>.
\<close>

theorem legacy_methods_delegate:
  "addBook c book = addItem c book
   \<and> getBookCount c = getItemCount c
   \<and> findBookByTitle toLowerCase c t = findItemByTitle toLowerCase c t
   \<and> getAllBooks c = getAllItems c"
  by (simp add: addBook_def getBookCount_def findBookByTitle_def getAllBooks_def)

section \<open>The single instance\<close>

lemma consistent_start: "consistent caller_start"
  by (simp add: consistent_def caller_start_def process_start_def)

lemma held_catalogue:
  assumes "consistent s" "v \<in> set (catalogues s)"
  shows "\<exists>r a xs. v = Some r \<and> static_instance (proc s) = Some r \<and> objects (proc s) r = Some a
            \<and> arrays (proc s) a = Some xs \<and> state_of (proc s) v = Inr \<lparr>libraryItems = xs\<rparr>"
proof -
  from assms obtain r where r: "v = Some r" "static_instance (proc s) = Some r"
    by (auto simp: consistent_def)
  with assms(1) obtain a where a: "objects (proc s) r = Some a"
    by (auto simp: consistent_def)
  with assms(1) obtain xs where xs: "arrays (proc s) a = Some xs"
    by (fastforce simp: consistent_def)
  from r a xs show ?thesis by (simp add: state_of_def)
qed

lemma getInstance_consistent:
  assumes "consistent s" "getInstance (proc s) = (v, p)"
  shows "consistent (s\<lparr>proc := p, catalogues := catalogues s @ [v]\<rparr>)"
proof (cases "static_instance (proc s)")
  case None
  with assms(1) have no: "objects (proc s) = Map.empty"
    by (auto simp: consistent_def)
  from assms(2) None no have
    "v = Some (Suc (fresh (proc s)))"
    "p = (proc s)\<lparr>arrays := (arrays (proc s))(fresh (proc s) \<mapsto> []),
                  fresh := Suc (Suc (fresh (proc s))),
                  objects := Map.empty(Suc (fresh (proc s)) \<mapsto> fresh (proc s)),
                  static_instance := Some (Suc (fresh (proc s)))\<rparr>"
    by (auto simp: getInstance_def new_LibraryCatalogue_def new_array_def Let_def
          LibraryCatalogue_constructor_def)
  with assms(1) None show ?thesis
    by (auto simp: consistent_def ran_def less_Suc_eq)
next
  case (Some r)
  with assms(2) have "v = Some r" "p = proc s"
    by (auto simp: getInstance_def)
  with assms(1) Some show ?thesis
    by (auto simp: consistent_def)
qed

lemma mutate_catalogue_array_consistent:
  assumes "consistent s" "objects (proc s) r = Some a"
  shows "consistent (s\<lparr>proc := console_log (mutate (proc s) a xs) lines\<rparr>)"
  using assms
  by (auto simp: consistent_def mutate_def console_log_def ran_def)

lemma mutate_held_consistent:
  assumes "consistent s" "a \<in> set (sequences s)"
  shows "consistent (s\<lparr>proc := mutate (proc s) a xs\<rparr>)"
  using assms
  by (auto simp: consistent_def mutate_def ran_def)

lemma new_array_consistent:
  assumes "consistent s"
  shows "consistent (s\<lparr>proc := snd (new_array (proc s) xs), sequences := sequences s @ [fresh (proc s)]\<rparr>)"
proof -
  have fresh_unused: "fresh (proc s) \<notin> dom (arrays (proc s))"
    using assms by (auto simp: consistent_def)
  have "fresh (proc s) \<notin> ran (objects (proc s))"
  proof
    assume "fresh (proc s) \<in> ran (objects (proc s))"
    then obtain r where "objects (proc s) r = Some (fresh (proc s))" by (auto simp: ran_def)
    with assms have "fresh (proc s) \<in> dom (arrays (proc s))" unfolding consistent_def by blast
    with fresh_unused show False by simp
  qed
  with assms show ?thesis
    unfolding consistent_def new_array_def
    by (simp add: less_Suc_eq)
qed

lemma step_consistent:
  assumes "consistent s"
  shows "\<exists>s'. step s c = Inr s' \<and> consistent s'"
proof (cases c)
  case GetInstance
  obtain v p where vp: "getInstance (proc s) = (v, p)" by (cases "getInstance (proc s)")
  from getInstance_consistent [OF assms vp] vp GetInstance show ?thesis by simp
next
  case (AddItem k item)
  show ?thesis
  proof (cases "k < length (catalogues s)")
    case True
    then have "catalogues s ! k \<in> set (catalogues s)" by simp
    from held_catalogue [OF assms this] obtain r a xs where
      h: "catalogues s ! k = Some r" "objects (proc s) r = Some a"
         "state_of (proc s) (catalogues s ! k) = Inr \<lparr>libraryItems = xs\<rparr>"
      by blast
    then have "step s c = Inr (s\<lparr>proc := console_log (mutate (proc s) a
                 (libraryItems (fst (addItem \<lparr>libraryItems = xs\<rparr> item))))
                 (snd (addItem \<lparr>libraryItems = xs\<rparr> item))\<rparr>)"
      using True AddItem
      by (simp add: invoke_addItem_def write_back_def split: prod.splits)
    with mutate_catalogue_array_consistent [OF assms h(2)] show ?thesis by simp
  next
    case False
    with AddItem assms show ?thesis by simp
  qed
next
  case (RemoveItem k i)
  show ?thesis
  proof (cases "k < length (catalogues s)")
    case True
    then have "catalogues s ! k \<in> set (catalogues s)" by simp
    from held_catalogue [OF assms this] obtain r a xs where
      h: "catalogues s ! k = Some r" "objects (proc s) r = Some a"
         "state_of (proc s) (catalogues s ! k) = Inr \<lparr>libraryItems = xs\<rparr>"
      by blast
    from removeItem_returns [of "\<lparr>libraryItems = xs\<rparr>" i] obtain ok c' out where
      r: "removeItem \<lparr>libraryItems = xs\<rparr> i = Inr (ok, c', out)" by blast
    from h r have "step s c = Inr (s\<lparr>proc := console_log (mutate (proc s) a (libraryItems c')) out\<rparr>)"
      using True RemoveItem
      by (simp add: invoke_removeItem_def write_back_def)
    with mutate_catalogue_array_consistent [OF assms h(2)] show ?thesis by simp
  next
    case False
    with RemoveItem assms show ?thesis by simp
  qed
next
  case (GetAllItems k)
  show ?thesis
  proof (cases "k < length (catalogues s)")
    case True
    then have "catalogues s ! k \<in> set (catalogues s)" by simp
    from held_catalogue [OF assms this] obtain r a xs where
      h: "catalogues s ! k = Some r" "objects (proc s) r = Some a"
         "state_of (proc s) (catalogues s ! k) = Inr \<lparr>libraryItems = xs\<rparr>"
      by blast
    then have "step s c = Inr (s\<lparr>proc := snd (new_array (proc s) (getAllItems \<lparr>libraryItems = xs\<rparr>)),
                    sequences := sequences s @ [fresh (proc s)]\<rparr>)"
      using True GetAllItems
      by (simp add: invoke_getAllItems_def new_array_def)
    with new_array_consistent [OF assms] show ?thesis by simp
  next
    case False
    with GetAllItems assms show ?thesis by simp
  qed
next
  case (Mutate j xs)
  show ?thesis
  proof (cases "j < length (sequences s)")
    case True
    then have "sequences s ! j \<in> set (sequences s)" by simp
    from mutate_held_consistent [OF assms this] True Mutate show ?thesis by simp
  next
    case False
    with Mutate assms show ?thesis by simp
  qed
qed

lemma run_consistent:
  "consistent s \<Longrightarrow> \<exists>s'. run cs s = Inr s' \<and> consistent s'"
proof (induction cs arbitrary: s)
  case Nil
  then show ?case by simp
next
  case (Cons c cs)
  from step_consistent [OF Cons.prems, of c] obtain s1 where
    s1: "step s c = Inr s1" "consistent s1" by blast
  from Cons.IH [OF s1(2)] s1(1) show ?case by simp
qed

lemma reachable_consistent: "\<exists>s. run calls caller_start = Inr s \<and> consistent s"
  by (rule run_consistent [OF consistent_start])

lemma first_getInstance:
  "getInstance process_start
     = (Some 1, \<lparr>static_instance = Some 1, objects = [1 \<mapsto> 0], arrays = [0 \<mapsto> []],
                 fresh = 2, stdout = []\<rparr>)"
  by (simp add: getInstance_def process_start_def new_LibraryCatalogue_def new_array_def
        LibraryCatalogue_constructor_def Let_def)

lemma addItem_visible:
  assumes "consistent s" "v \<in> set (catalogues s)" "v' \<in> set (catalogues s)"
  shows "\<exists>this p'. state_of (proc s) v' = Inr this \<and> invoke_addItem (proc s) v item = Inr p'
           \<and> state_of p' v' = Inr (fst (addItem this item))"
proof -
  from held_catalogue [OF assms(1,2)] obtain r a xs where
    h: "v = Some r" "static_instance (proc s) = Some r" "objects (proc s) r = Some a"
       "arrays (proc s) a = Some xs" "state_of (proc s) v = Inr \<lparr>libraryItems = xs\<rparr>"
    by blast
  from held_catalogue [OF assms(1,3)] h have v': "v' = v"
    by auto
  have "invoke_addItem (proc s) v item
          = Inr (console_log (mutate (proc s) a (xs @ [item])) (snd (addItem \<lparr>libraryItems = xs\<rparr> item)))"
    using h by (simp add: invoke_addItem_def write_back_def addItem_def push_def)
  moreover have "state_of (console_log (mutate (proc s) a (xs @ [item])) lines) v
          = Inr (fst (addItem \<lparr>libraryItems = xs\<rparr> item))" for lines
    using h by (simp add: state_of_def console_log_def mutate_def addItem_def push_def)
  ultimately show ?thesis using h(5) v' by simp
qed

lemma session_held:
  "case run session caller_start of
     Inl e \<Rightarrow> False
   | Inr s \<Rightarrow> catalogues s = [Some 1, Some 1] \<and> sequences s = [2]"
  by (simp add: session_def caller_start_def process_start_def getInstance_def
        new_LibraryCatalogue_def new_array_def LibraryCatalogue_constructor_def Let_def
        invoke_addItem_def invoke_getAllItems_def state_of_def write_back_def mutate_def
        console_log_def addItem_def)

text \<open>
  C7: whatever the caller does from the start of the process, every call of
  \<^verbatim>\<open>getInstance\<close> has returned the same reference, which is not \<^verbatim>\<open>undefined\<close>; the
  store holds no catalogue object but the one the static field names; an item added
  through one of the references the caller holds is there when the catalogue is read
  through any other; and the first call in a process constructs the empty catalogue.
\<close>

theorem getInstance_one_instance:
  "\<exists>s. run calls caller_start = Inr s
     \<and> (\<forall>v \<in> set (catalogues s). \<forall>v' \<in> set (catalogues s). v = v' \<and> v \<noteq> None)
     \<and> dom (objects (proc s)) \<subseteq> set_option (static_instance (proc s))
     \<and> (\<forall>v \<in> set (catalogues s). \<forall>v' \<in> set (catalogues s). \<forall>item.
          \<exists>this p'. state_of (proc s) v' = Inr this \<and> invoke_addItem (proc s) v item = Inr p'
             \<and> state_of p' v' = Inr (fst (addItem this item)))
     \<and> (\<exists>r p. getInstance process_start = (Some r, p)
             \<and> state_of p (Some r) = Inr LibraryCatalogue_constructor)"
proof -
  from reachable_consistent [of calls] obtain s where
    s: "run calls caller_start = Inr s" "consistent s" by blast
  have 1: "\<forall>v \<in> set (catalogues s). \<forall>v' \<in> set (catalogues s). v = v' \<and> v \<noteq> None"
    using s(2) unfolding consistent_def by metis
  have 2: "dom (objects (proc s)) \<subseteq> set_option (static_instance (proc s))"
    using s(2) by (auto simp: consistent_def)
  have 3: "\<forall>v \<in> set (catalogues s). \<forall>v' \<in> set (catalogues s). \<forall>item.
          \<exists>this p'. state_of (proc s) v' = Inr this \<and> invoke_addItem (proc s) v item = Inr p'
             \<and> state_of p' v' = Inr (fst (addItem this item))"
    using addItem_visible [OF s(2)] by blast
  have 4: "\<exists>r p. getInstance process_start = (Some r, p)
             \<and> state_of p (Some r) = Inr LibraryCatalogue_constructor"
    by (simp add: first_getInstance state_of_def LibraryCatalogue_constructor_def)
  from s(1) 1 2 3 4 show ?thesis by blast
qed

theorem getInstance_one_instance_witness:
  "\<exists>s. run session caller_start = Inr s
     \<and> catalogues s = [Some 1, Some 1]
     \<and> (\<exists>this p'. state_of (proc s) (catalogues s ! 1) = Inr this
           \<and> invoke_addItem (proc s) (catalogues s ! 0) nineteen_eighty_four = Inr p'
           \<and> state_of p' (catalogues s ! 1) = Inr (fst (addItem this nineteen_eighty_four)))"
proof -
  from getInstance_one_instance [of session] obtain s where
    s: "run session caller_start = Inr s"
       "\<forall>v \<in> set (catalogues s). \<forall>v' \<in> set (catalogues s). \<forall>item.
          \<exists>this p'. state_of (proc s) v' = Inr this \<and> invoke_addItem (proc s) v item = Inr p'
             \<and> state_of p' v' = Inr (fst (addItem this item))"
    by blast
  from s(1) session_held have held: "catalogues s = [Some 1, Some 1]" by simp
  then have "catalogues s ! 0 \<in> set (catalogues s)" "catalogues s ! 1 \<in> set (catalogues s)"
    by simp_all
  with s(2) have "\<exists>this p'. state_of (proc s) (catalogues s ! 1) = Inr this
           \<and> invoke_addItem (proc s) (catalogues s ! 0) nineteen_eighty_four = Inr p'
           \<and> state_of p' (catalogues s ! 1) = Inr (fst (addItem this nineteen_eighty_four))"
    by blast
  with s(1) held show ?thesis by blast
qed

section \<open>Copies of the item sequence\<close>

lemma mutate_held_state:
  assumes "consistent s" "v \<in> set (catalogues s)" "a \<in> set (sequences s)"
  shows "state_of (mutate (proc s) a ys) v = state_of (proc s) v"
proof -
  from held_catalogue [OF assms(1,2)] obtain r b xs where
    h: "v = Some r" "objects (proc s) r = Some b" "arrays (proc s) b = Some xs"
    by blast
  from assms(1,3) have "a \<notin> ran (objects (proc s))" by (simp add: consistent_def)
  with h(2) have "a \<noteq> b" by (auto simp: ran_def)
  with h show ?thesis by (simp add: state_of_def mutate_def)
qed

lemma getAllItems_fresh_copy:
  assumes "consistent s" "v \<in> set (catalogues s)"
  shows "\<exists>this a p. state_of (proc s) v = Inr this \<and> invoke_getAllItems (proc s) v = Inr (a, p)
           \<and> arrays p a = Some (libraryItems this) \<and> state_of p v = Inr this
           \<and> (\<forall>ys. state_of (mutate p a ys) v = Inr this)"
proof -
  from held_catalogue [OF assms(1,2)] obtain r b xs where
    h: "v = Some r" "objects (proc s) r = Some b" "arrays (proc s) b = Some xs"
       "state_of (proc s) v = Inr \<lparr>libraryItems = xs\<rparr>"
    by blast
  from assms(1) h(3) have "b < fresh (proc s)" by (auto simp: consistent_def)
  then have ne: "fresh (proc s) \<noteq> b" by simp
  define p where "p = snd (new_array (proc s) xs)"
  have "invoke_getAllItems (proc s) v = Inr (fresh (proc s), p)"
    using h(4) by (simp add: invoke_getAllItems_def new_array_def getAllItems_def spread_copy p_def)
  moreover have "arrays p (fresh (proc s)) = Some xs"
    by (simp add: p_def new_array_def)
  moreover have "state_of p v = Inr \<lparr>libraryItems = xs\<rparr>"
    using h ne by (simp add: p_def new_array_def state_of_def)
  moreover have "state_of (mutate p (fresh (proc s)) ys) v = Inr \<lparr>libraryItems = xs\<rparr>" for ys
    using h ne by (simp add: p_def new_array_def state_of_def mutate_def)
  ultimately show ?thesis using h(4) by simp
qed

text \<open>
  C8: whatever the caller has done, \<^verbatim>\<open>getAllItems\<close> returns a new array with the items
  of the catalogue, and the catalogue is the same after any mutation of that array;
  and whichever array a call of \<^verbatim>\<open>getAllItems\<close> returned to the caller earlier, mutating
  it in any way leaves the state of the catalogue, and so the results of
  \<^verbatim>\<open>getItemCount\<close> and \<^verbatim>\<open>getAllItems\<close>, as they were.
\<close>

theorem getAllItems_defensive_copy:
  "\<exists>s. run calls caller_start = Inr s
     \<and> (\<forall>v \<in> set (catalogues s).
          \<exists>this a p. state_of (proc s) v = Inr this \<and> invoke_getAllItems (proc s) v = Inr (a, p)
             \<and> arrays p a = Some (libraryItems this) \<and> state_of p v = Inr this
             \<and> (\<forall>ys. state_of (mutate p a ys) v = Inr this))
     \<and> (\<forall>v \<in> set (catalogues s). \<forall>a \<in> set (sequences s). \<forall>ys.
          state_of (mutate (proc s) a ys) v = state_of (proc s) v
          \<and> invoke_getItemCount (mutate (proc s) a ys) v = invoke_getItemCount (proc s) v)"
proof -
  from reachable_consistent [of calls] obtain s where
    s: "run calls caller_start = Inr s" "consistent s" by blast
  have 1: "\<forall>v \<in> set (catalogues s).
          \<exists>this a p. state_of (proc s) v = Inr this \<and> invoke_getAllItems (proc s) v = Inr (a, p)
             \<and> arrays p a = Some (libraryItems this) \<and> state_of p v = Inr this
             \<and> (\<forall>ys. state_of (mutate p a ys) v = Inr this)"
    using getAllItems_fresh_copy [OF s(2)] by blast
  have 2: "\<forall>v \<in> set (catalogues s). \<forall>a \<in> set (sequences s). \<forall>ys.
          state_of (mutate (proc s) a ys) v = state_of (proc s) v
          \<and> invoke_getItemCount (mutate (proc s) a ys) v = invoke_getItemCount (proc s) v"
    using mutate_held_state [OF s(2)] by (simp add: invoke_getItemCount_def)
  from s(1) 1 2 show ?thesis by blast
qed

theorem getAllItems_defensive_copy_witness:
  "\<exists>s. run session caller_start = Inr s
     \<and> catalogues s = [Some 1, Some 1] \<and> sequences s = [2]
     \<and> state_of (mutate (proc s) 2 [dune, dune, dune]) (Some 1) = state_of (proc s) (Some 1)
     \<and> invoke_getItemCount (mutate (proc s) 2 [dune, dune, dune]) (Some 1)
          = invoke_getItemCount (proc s) (Some 1)
     \<and> (\<exists>this a p. state_of (proc s) (Some 1) = Inr this
           \<and> invoke_getAllItems (proc s) (Some 1) = Inr (a, p)
           \<and> arrays p a = Some (libraryItems this)
           \<and> state_of (mutate p a []) (Some 1) = Inr this)"
proof -
  from getAllItems_defensive_copy [of session] obtain s where
    s: "run session caller_start = Inr s"
       "\<forall>v \<in> set (catalogues s).
          \<exists>this a p. state_of (proc s) v = Inr this \<and> invoke_getAllItems (proc s) v = Inr (a, p)
             \<and> arrays p a = Some (libraryItems this) \<and> state_of p v = Inr this
             \<and> (\<forall>ys. state_of (mutate p a ys) v = Inr this)"
       "\<forall>v \<in> set (catalogues s). \<forall>a \<in> set (sequences s). \<forall>ys.
          state_of (mutate (proc s) a ys) v = state_of (proc s) v
          \<and> invoke_getItemCount (mutate (proc s) a ys) v = invoke_getItemCount (proc s) v"
    by blast
  from s(1) session_held have held: "catalogues s = [Some 1, Some 1]" "sequences s = [2]"
    by simp_all
  then have in1: "Some 1 \<in> set (catalogues s)" and in2: "2 \<in> set (sequences s)"
    by simp_all
  from s(3) in1 in2 have
    "state_of (mutate (proc s) 2 [dune, dune, dune]) (Some 1) = state_of (proc s) (Some 1)
     \<and> invoke_getItemCount (mutate (proc s) 2 [dune, dune, dune]) (Some 1)
          = invoke_getItemCount (proc s) (Some 1)"
    by blast
  moreover from s(2) in1 have
    "\<exists>this a p. state_of (proc s) (Some 1) = Inr this
           \<and> invoke_getAllItems (proc s) (Some 1) = Inr (a, p)
           \<and> arrays p a = Some (libraryItems this)
           \<and> state_of (mutate p a []) (Some 1) = Inr this"
    by blast
  ultimately show ?thesis using s(1) held by blast
qed

end
